theory Spec2Isabelle
  imports Complex_Main "HOL-Library.AList" "HOL-Library.Product_Lexorder"
    "HOL-Library.List_Lexorder" "HOL-Library.Multiset"
begin

section \<open>Informed search: the A* engine of lab2 and its example problems\<close>

text \<open>
  The development embeds the notebook \<^verbatim>\<open>lab2/lab2-151932-Kordas.ipynb\<close>: the class
  \<^verbatim>\<open>Problem\<close>, the function \<^verbatim>\<open>astar\<close>, and the classes \<^verbatim>\<open>VacuumProblem\<close> and
  \<^verbatim>\<open>PuzzleProblem\<close> (with the heuristics of \<^verbatim>\<open>PuzzleProblem1\<close> and \<^verbatim>\<open>PuzzleProblem2\<close>).

  Conventions of the embedding.
  \<^item> Python numbers (the costs are \<^verbatim>\<open>int\<close> or \<^verbatim>\<open>float\<close>, compared and added exactly on the
    example domains) are the type \<open>real\<close>.
  \<^item> A Python exception is a value \<open>Inl e\<close> of the sum type \<open>error + 'a\<close>.
  \<^item> Actions are Python strings, hence \<open>string\<close>. States are values of a linearly ordered
    type: the priority queue compares the tuples \<^verbatim>\<open>(cost, state)\<close>, and Python compares
    tuples lexicographically, which is the order of \<open>Product_Lexorder\<close> and
    \<open>List_Lexorder\<close>.
  \<^item> A loop that may run forever is a \<^theory_text>\<open>partial_function\<close> in the option monad:
    \<open>None\<close> means that the loop does not return.
\<close>

subsection \<open>Exceptions\<close>

datatype error = InvalidAction | IndexError | KeyError | TypeError | UnboundLocalError

subsection \<open>The class \<^verbatim>\<open>Problem\<close>\<close>

record 'st problem =
  initial_state :: 'st
  available_actions :: "'st \<Rightarrow> string list"
  do_action :: "'st \<Rightarrow> string \<Rightarrow> error + 'st"
  is_goal :: "'st \<Rightarrow> bool"
  action_cost :: "'st \<Rightarrow> string \<Rightarrow> real"
  heuristic :: "'st \<Rightarrow> real"

subsection \<open>The data of \<^verbatim>\<open>astar\<close>\<close>

text \<open>
  A value of the dictionary \<^verbatim>\<open>revealed\<close> is the tuple
  \<^verbatim>\<open>(predecessor, action, f, g)\<close>; the entry of the initial state is
  \<^verbatim>\<open>(None, "", heuristic(initial), 0)\<close>.
\<close>

record 'st entry =
  predecessor :: "'st option"
  via_action :: string
  f_cost :: real
  g_cost :: real

text \<open>
  The dictionary is an association list with distinct keys, in insertion order as a Python
  \<^verbatim>\<open>dict\<close> is: \<open>map_of\<close> reads it, \<open>AList.update\<close> is \<^verbatim>\<open>revealed[k] = v\<close>, and
  \<open>length\<close> is \<^verbatim>\<open>len(revealed)\<close>.
\<close>

type_synonym 'st table = "('st \<times> 'st entry) list"

text \<open>
  \<^verbatim>\<open>queue.PriorityQueue\<close> is a binary heap of the tuples \<^verbatim>\<open>(cost, state)\<close>. \<^verbatim>\<open>get\<close> returns
  a least tuple of the heap and removes one copy of it; as the order on tuples is linear, the
  tuple returned and the tuples left behind depend only on which tuples the heap holds, not
  on their arrangement. The queue is therefore the list of its tuples.
\<close>

type_synonym 'st pqueue = "(real \<times> 'st) list"

definition pq_put :: "'a \<Rightarrow> 'a list \<Rightarrow> 'a list" where
  "pq_put e q = q @ [e]"

definition pq_get :: "('a::linorder) list \<Rightarrow> 'a \<times> 'a list" where
  "pq_get q = (let m = Min (set q) in (m, remove1 m q))"

record 'st search =
  queue :: "'st pqueue"
  revealed :: "'st table"
  visited :: nat
  curr_state :: "'st option"

record outcome =
  solution :: "string list"
  visited_states :: nat
  checked_states :: nat

subsection \<open>The function \<^verbatim>\<open>astar\<close>\<close>

text \<open>The body of \<^verbatim>\<open>for p in possible\<close>, for one action \<^verbatim>\<open>p\<close>.\<close>

definition relax ::
  "('st::linorder) problem \<Rightarrow> 'st \<Rightarrow> real \<Rightarrow> string \<Rightarrow> 'st table \<times> 'st pqueue
    \<Rightarrow> error + ('st table \<times> 'st pqueue)" where
  "relax P cs curr_cost p tq =
    (case tq of (tbl, q) \<Rightarrow>
      (case do_action P cs p of
        Inl e \<Rightarrow> Inl e
      | Inr new_state \<Rightarrow>
          (let real_cost = action_cost P cs p + curr_cost;
               new_cost = real_cost + heuristic P new_state
           in if (case map_of tbl new_state of
                    Some r \<Rightarrow> new_cost \<ge> f_cost r
                  | None \<Rightarrow> False)
              then Inr (tbl, q)
              else Inr (AList.update new_state
                          \<lparr>predecessor = Some cs, via_action = p,
                           f_cost = new_cost, g_cost = real_cost\<rparr> tbl,
                        pq_put (new_cost, new_state) q))))"

text \<open>The loop \<^verbatim>\<open>for p in possible\<close>.\<close>

fun expand ::
  "('st::linorder) problem \<Rightarrow> 'st \<Rightarrow> real \<Rightarrow> string list \<Rightarrow> 'st table \<times> 'st pqueue
    \<Rightarrow> error + ('st table \<times> 'st pqueue)" where
  "expand P cs curr_cost [] tq = Inr tq"
| "expand P cs curr_cost (p # ps) tq =
    (case relax P cs curr_cost p tq of
      Inl e \<Rightarrow> Inl e
    | Inr tq' \<Rightarrow> expand P cs curr_cost ps tq')"

text \<open>
  One pass through the body of \<^verbatim>\<open>while not q.empty()\<close>. The flag of the result is \<open>True\<close>
  when the pass ends in \<^verbatim>\<open>break\<close>.
\<close>

definition iteration ::
  "('st::linorder) problem \<Rightarrow> 'st search \<Rightarrow> error + (bool \<times> 'st search)" where
  "iteration P s =
    (case pq_get (queue s) of (current, q') \<Rightarrow>
      (let cs = snd current in
        (case map_of (revealed s) cs of
          None \<Rightarrow> Inl KeyError
        | Some r \<Rightarrow>
            (let curr_cost = g_cost r;
                 s1 = s\<lparr>queue := q', visited := visited s + 1, curr_state := Some cs\<rparr>
             in if is_goal P cs then Inr (True, s1)
                else (case expand P cs curr_cost (available_actions P cs) (revealed s, q') of
                        Inl e \<Rightarrow> Inl e
                      | Inr (tbl, q'') \<Rightarrow> Inr (False, s1\<lparr>queue := q'', revealed := tbl\<rparr>))))))"

partial_function (option) search_loop ::
  "('st::linorder) problem \<Rightarrow> 'st search \<Rightarrow> (error + 'st search) option" where
  "search_loop P s =
    (if queue s = [] then Some (Inr s)
     else (case iteration P s of
             Inl e \<Rightarrow> Some (Inl e)
           | Inr (brk, s') \<Rightarrow> if brk then Some (Inr s') else search_loop P s'))"

text \<open>
  The loop \<^verbatim>\<open>while revealed[curr_state][0] != None\<close>; the result is the list \<^verbatim>\<open>solution\<close>
  before it is reversed, with the last value of \<^verbatim>\<open>curr_state\<close>.
\<close>

partial_function (option) reconstruct ::
  "'st table \<Rightarrow> 'st \<Rightarrow> string list \<Rightarrow> (error + string list \<times> 'st) option" where
  "reconstruct tbl cs sol =
    (case map_of tbl cs of
      None \<Rightarrow> Some (Inl KeyError)
    | Some r \<Rightarrow>
        (case predecessor r of
          None \<Rightarrow> Some (Inr (sol, cs))
        | Some p \<Rightarrow> reconstruct tbl p (sol @ [via_action r])))"

definition init_search :: "('st::linorder) problem \<Rightarrow> 'st search" where
  "init_search P =
    (let initial = initial_state P
     in \<lparr>queue = pq_put (heuristic P initial, initial) [],
         revealed = [(initial, \<lparr>predecessor = None, via_action = '''',
                               f_cost = heuristic P initial, g_cost = 0\<rparr>)],
         visited = 0,
         curr_state = None\<rparr>)"

definition astar :: "('st::linorder) problem \<Rightarrow> (error + outcome) option" where
  "astar P =
    (case search_loop P (init_search P) of
      None \<Rightarrow> None
    | Some (Inl e) \<Rightarrow> Some (Inl e)
    | Some (Inr s) \<Rightarrow>
        (case curr_state s of
          None \<Rightarrow> Some (Inl UnboundLocalError)
        | Some cs \<Rightarrow>
            (case reconstruct (revealed s) cs [] of
              None \<Rightarrow> None
            | Some (Inl e) \<Rightarrow> Some (Inl e)
            | Some (Inr (sol, _)) \<Rightarrow>
                Some (Inr \<lparr>solution = rev sol, visited_states = visited s,
                           checked_states = length (revealed s)\<rparr>))))"

subsection \<open>Python list indexing\<close>

text \<open>\<^verbatim>\<open>xs[i]\<close> and \<^verbatim>\<open>xs[i] = v\<close>: a negative index counts from the end.\<close>

definition py_index :: "'a list \<Rightarrow> int \<Rightarrow> nat option" where
  "py_index xs i =
    (let n = int (length xs); j = (if i < 0 then n + i else i)
     in if 0 \<le> j \<and> j < n then Some (nat j) else None)"


definition py_set :: "'a list \<Rightarrow> int \<Rightarrow> 'a \<Rightarrow> error + 'a list" where
  "py_set xs i v = (case py_index xs i of None \<Rightarrow> Inl IndexError | Some j \<Rightarrow> Inr (xs[j := v]))"

subsection \<open>The class \<^verbatim>\<open>VacuumProblem\<close>\<close>

text \<open>A state is the tuple \<^verbatim>\<open>(robot, dirty)\<close>, \<^verbatim>\<open>dirty\<close> a tuple of booleans.\<close>

type_synonym vstate = "int \<times> bool list"

definition vacuum_initial_state :: vstate where
  "vacuum_initial_state = (0, [True, True])"

definition vacuum_available_actions :: "vstate \<Rightarrow> string list" where
  "vacuum_available_actions state = [''Left'', ''Suck'', ''Right'']"

definition vacuum_do_action :: "vstate \<Rightarrow> string \<Rightarrow> error + vstate" where
  "vacuum_do_action state action =
    (case state of (robot, dirty) \<Rightarrow>
      if action = ''Left'' then Inr (max (robot - 1) 0, dirty)
      else if action = ''Suck'' then
        (case py_set dirty robot False of
          Inl e \<Rightarrow> Inl e
        | Inr new_dirty \<Rightarrow> Inr (robot, new_dirty))
      else if action = ''Right'' then Inr (min (robot + 1) (int (length dirty) - 1), dirty)
      else Inl InvalidAction)"

definition vacuum_is_goal :: "vstate \<Rightarrow> bool" where
  "vacuum_is_goal state = (\<not> list_ex (\<lambda>b. b) (snd state))"

definition vacuum_action_cost :: "vstate \<Rightarrow> string \<Rightarrow> real" where
  "vacuum_action_cost state action = 1"

definition vacuum_heuristic :: "vstate \<Rightarrow> real" where
  "vacuum_heuristic state = (\<Sum>b\<leftarrow>snd state. of_bool b)"

definition VacuumProblem :: "vstate problem" where
  "VacuumProblem =
    \<lparr>initial_state = vacuum_initial_state,
     available_actions = vacuum_available_actions,
     do_action = vacuum_do_action,
     is_goal = vacuum_is_goal,
     action_cost = vacuum_action_cost,
     heuristic = vacuum_heuristic\<rparr>"

subsection \<open>The class \<^verbatim>\<open>PuzzleProblem\<close>\<close>

text \<open>A state is a tuple of three rows, each a tuple of three numbers; \<^verbatim>\<open>0\<close> is the blank.\<close>

type_synonym pstate = "int list list"











definition puzzle_is_goal :: "pstate \<Rightarrow> bool" where
  "puzzle_is_goal state = (state = [[0, 1, 2], [3, 4, 5], [6, 7, 8]])"

subsection \<open>Plans\<close>

text \<open>
  Executing a list of actions from a state: every action has to be among the available
  actions of the state it is applied to, and \<^verbatim>\<open>do_action\<close> has to return.
\<close>

fun run_plan :: "'st problem \<Rightarrow> 'st \<Rightarrow> string list \<Rightarrow> 'st option" where
  "run_plan P s [] = Some s"
| "run_plan P s (a # as) =
    (if a \<in> set (available_actions P s)
     then (case do_action P s a of Inl e \<Rightarrow> None | Inr s' \<Rightarrow> run_plan P s' as)
     else None)"


subsection \<open>The points of a search\<close>

text \<open>
  \<open>config P (brk, s)\<close>: in the run of \<^verbatim>\<open>astar\<close> on \<open>P\<close>, the \<^verbatim>\<open>while\<close> loop reaches its head
  with the variables \<open>s\<close> (\<open>brk = False\<close>), or leaves its body by \<^verbatim>\<open>break\<close> with the
  variables \<open>s\<close> (\<open>brk = True\<close>).
\<close>

inductive config :: "('st::linorder) problem \<Rightarrow> bool \<times> 'st search \<Rightarrow> bool" for P where
  config_init: "config P (False, init_search P)"
| config_step: "config P (False, s) \<Longrightarrow> queue s \<noteq> [] \<Longrightarrow> iteration P s = Inr bs \<Longrightarrow> config P bs"

text \<open>
  \<open>for_point P cs curr_cost ps (tbl, q)\<close>: the loop \<^verbatim>\<open>for p in possible\<close> of a pass that
  popped \<open>cs\<close> and read \<open>curr_cost\<close> is about to process the actions \<open>ps\<close>, the table and
  the queue being \<open>tbl\<close> and \<open>q\<close>.
\<close>

definition for_point ::
  "('st::linorder) problem \<Rightarrow> 'st \<Rightarrow> real \<Rightarrow> string list \<Rightarrow> 'st table \<times> 'st pqueue \<Rightarrow> bool" where
  "for_point P cs curr_cost ps tq =
    (\<exists>s current q' r done.
       config P (False, s) \<and> queue s \<noteq> [] \<and> pq_get (queue s) = (current, q') \<and>
       cs = snd current \<and> map_of (revealed s) cs = Some r \<and> curr_cost = g_cost r \<and>
       \<not> is_goal P cs \<and> available_actions P cs = done @ ps \<and>
       expand P cs curr_cost done (revealed s, q') = Inr tq)"

subsection \<open>A state graph without a reachable goal\<close>

text \<open>
  Three states \<open>0\<close>, \<open>1\<close>, \<open>2\<close>: one action leads from \<open>0\<close> to \<open>1\<close>, state \<open>1\<close> has no
  action, and the only goal \<open>2\<close> is cut off.
\<close>

definition DeadEnd :: "nat problem" where
  "DeadEnd =
    \<lparr>initial_state = 0,
     available_actions = (\<lambda>s. if s = 0 then [''go''] else []),
     do_action = (\<lambda>s a. Inr (s + 1)),
     is_goal = (\<lambda>s. s = 2),
     action_cost = (\<lambda>s a. 1),
     heuristic = (\<lambda>s. 0)\<rparr>"

declare search_loop.simps [code]
declare reconstruct.simps [code]

subsection \<open>What a problem may promise\<close>

text \<open>The states that some plan reaches from the initial state.\<close>

definition reachable :: "'st problem \<Rightarrow> 'st set" where
  "reachable P = {t. \<exists>plan. run_plan P (initial_state P) plan = Some t}"


definition nonneg_costs :: "'st problem \<Rightarrow> bool" where
  "nonneg_costs P =
    (\<forall>s\<in>reachable P. \<forall>a\<in>set (available_actions P s). 0 \<le> action_cost P s a)"




subsection \<open>Invariants of the table and the queue\<close>

text \<open>
  \<open>chain m s plan\<close>: following the predecessors recorded in \<open>m\<close> from \<open>s\<close> leads to an entry
  without predecessor, and \<open>plan\<close> lists the recorded actions in the order from that entry to
  \<open>s\<close>.
\<close>

inductive chain :: "('st \<rightharpoonup> 'st entry) \<Rightarrow> 'st \<Rightarrow> string list \<Rightarrow> bool" for m where
  chain_root: "m s = Some r \<Longrightarrow> predecessor r = None \<Longrightarrow> chain m s []"
| chain_link: "m s = Some r \<Longrightarrow> predecessor r = Some p \<Longrightarrow> chain m p plan
    \<Longrightarrow> chain m s (plan @ [via_action r])"

text \<open>
  Every entry belongs to a reachable state, has \<open>f = g + h\<close>, and either has no predecessor
  and is the entry of the initial state, or records an available action of its predecessor
  that leads to its state.
\<close>

definition links_ok :: "'st problem \<Rightarrow> ('st \<rightharpoonup> 'st entry) \<Rightarrow> bool" where
  "links_ok P m =
    (\<forall>s r. m s = Some r \<longrightarrow>
       s \<in> reachable P \<and> f_cost r = g_cost r + heuristic P s \<and>
       (case predecessor r of
          None \<Rightarrow> s = initial_state P
        | Some p \<Rightarrow> p \<in> dom m \<and> via_action r \<in> set (available_actions P p) \<and>
            do_action P p (via_action r) = Inr s))"

definition basic_inv :: "'st problem \<Rightarrow> 'st table \<times> 'st pqueue \<Rightarrow> bool" where
  "basic_inv P tq =
    (case tq of (tbl, q) \<Rightarrow>
       distinct (map fst tbl) \<and> links_ok P (map_of tbl) \<and>
       (\<forall>e\<in>set q. snd e \<in> dom (map_of tbl)))"

text \<open>
  With costs that are not negative: the entry of the initial state is the one \<^verbatim>\<open>astar\<close>
  starts with, no \<open>g\<close> is negative, \<open>g\<close> grows along a recorded link by at least the cost of
  the action, and every entry has a chain.
\<close>

definition costs_ok :: "'st problem \<Rightarrow> ('st \<rightharpoonup> 'st entry) \<Rightarrow> bool" where
  "costs_ok P m =
    (m (initial_state P) =
       Some \<lparr>predecessor = None, via_action = '''',
             f_cost = heuristic P (initial_state P), g_cost = 0\<rparr> \<and>
     (\<forall>s r. m s = Some r \<longrightarrow>
        0 \<le> g_cost r \<and>
        (\<forall>p. predecessor r = Some p \<longrightarrow>
           (\<exists>rp. m p = Some rp \<and> g_cost rp + action_cost P p (via_action r) \<le> g_cost r)) \<and>
        (\<exists>plan. chain m s plan)))"


text \<open>
  The entry of the initial state is the only one without predecessor, and the loop
  \<^verbatim>\<open>while revealed[curr_state][0] != None\<close>, started at any state of the table, returns with
  \<^verbatim>\<open>curr_state\<close> the initial state.
\<close>

definition sentinel_ok :: "('st::linorder) problem \<Rightarrow> 'st table \<Rightarrow> bool" where
  "sentinel_ok P tbl =
    ((\<exists>r. map_of tbl (initial_state P) = Some r \<and> predecessor r = None) \<and>
     (\<forall>k r. map_of tbl k = Some r \<and> predecessor r = None \<longrightarrow> k = initial_state P) \<and>
     (\<forall>k\<in>dom (map_of tbl). \<forall>sol. \<exists>sol'.
        reconstruct tbl k sol = Some (Inr (sol', initial_state P))))"


subsection \<open>A heuristic that is negative at a goal\<close>


subsection \<open>Two problems with the same behaviour\<close>


section \<open>Properties\<close>

subsection \<open>Evaluation\<close>

lemmas astar_defs = astar_def init_search_def iteration_def pq_get_def pq_put_def relax_def Let_def

lemmas vacuum_defs = VacuumProblem_def vacuum_initial_state_def vacuum_available_actions_def
  vacuum_do_action_def vacuum_is_goal_def vacuum_action_cost_def vacuum_heuristic_def
  py_set_def py_index_def


subsection \<open>The cleaning world\<close>

text \<open>
  Claim C3. On the two-room cleaning world (robot in room 0, both rooms dirty, every action
  of cost 1, heuristic the number of dirty rooms) \<^verbatim>\<open>astar\<close> returns
  \<^verbatim>\<open>['Suck', 'Right', 'Suck']\<close>, takes 4 tuples from the queue and ends with 5 states in
  the table \<^verbatim>\<open>revealed\<close>.
\<close>

theorem vacuum_scenario:
  "astar VacuumProblem =
     Some (Inr \<lparr>solution = [''Suck'', ''Right'', ''Suck''],
                visited_states = 4, checked_states = 5\<rparr>)"
  by (simp add: astar_defs search_loop.simps reconstruct.simps vacuum_defs)

subsection \<open>A goal at the start\<close>

text \<open>
  Claim C4. When the initial state is a goal, \<^verbatim>\<open>astar\<close> returns the empty list after one
  pass of the loop; the pass ends at the goal test, so that the table holds the entry of
  the initial state alone and the queue is empty: no successor was computed. The problem is
  arbitrary, its \<^verbatim>\<open>do_action\<close> may raise on every input.
\<close>

theorem goal_at_start:
  assumes "is_goal P (initial_state P)"
  shows "astar P = Some (Inr \<lparr>solution = [], visited_states = 1, checked_states = 1\<rparr>) \<and>
    search_loop P (init_search P) =
      Some (Inr \<lparr>queue = [],
                 revealed = [(initial_state P,
                   \<lparr>predecessor = None, via_action = '''',
                    f_cost = heuristic P (initial_state P), g_cost = 0\<rparr>)],
                 visited = 1, curr_state = Some (initial_state P)\<rparr>)"
  using assms by (simp add: astar_defs search_loop.simps reconstruct.simps)

theorem goal_at_start_witness:
  "is_goal (VacuumProblem\<lparr>initial_state := (1, [False, False])\<rparr>) (1, [False, False]) \<and>
   astar (VacuumProblem\<lparr>initial_state := (1, [False, False])\<rparr>) =
     Some (Inr \<lparr>solution = [], visited_states = 1, checked_states = 1\<rparr>)"
  using goal_at_start [of "VacuumProblem\<lparr>initial_state := (1, [False, False])\<rparr>"]
  by (simp add: VacuumProblem_def vacuum_is_goal_def)

subsection \<open>An unreachable goal\<close>

lemma dead_end_states: "run_plan DeadEnd s plan = Some t \<Longrightarrow> s \<le> 1 \<Longrightarrow> t \<le> 1"
  by (induction plan arbitrary: s) (auto simp: DeadEnd_def split: if_splits)

text \<open>
  Claim C1 asks for the result \<^verbatim>\<open>None\<close> when no goal can be reached. On the graph
  \<open>DeadEnd\<close> no plan from the initial state ends in a goal, the queue runs empty after two
  passes, and \<^verbatim>\<open>astar\<close> returns the list \<^verbatim>\<open>['go']\<close>: the path to the state popped last.
\<close>

theorem dead_end_returns_plan:
  "reachable DeadEnd \<inter> {t. is_goal DeadEnd t} = {} \<and>
   astar DeadEnd = Some (Inr \<lparr>solution = [''go''], visited_states = 2, checked_states = 2\<rparr>)"
proof
  have "\<not> is_goal DeadEnd t" if "t \<in> reachable DeadEnd" for t
  proof -
    from that obtain plan where "run_plan DeadEnd (initial_state DeadEnd) plan = Some t"
      by (auto simp: reachable_def)
    then have "t \<le> 1"
      using dead_end_states [of 0 plan t] by (simp add: DeadEnd_def)
    then show ?thesis
      by (simp add: DeadEnd_def)
  qed
  then show "reachable DeadEnd \<inter> {t. is_goal DeadEnd t} = {}"
    by auto
  show "astar DeadEnd = Some (Inr \<lparr>solution = [''go''], visited_states = 2, checked_states = 2\<rparr>)"
    by (simp add: astar_defs search_loop.simps reconstruct.simps DeadEnd_def)
qed

subsection \<open>Actions that are not available\<close>
















section \<open>Invariants of the search\<close>

subsection \<open>Plans\<close>

lemma run_plan_append:
  "run_plan P s (as @ bs) = (case run_plan P s as of None \<Rightarrow> None | Some t \<Rightarrow> run_plan P t bs)"
  by (induction as arbitrary: s) (auto split: sum.splits)


lemma reachable_initial: "initial_state P \<in> reachable P"
proof -
  have "run_plan P (initial_state P) [] = Some (initial_state P)" by simp
  then show ?thesis unfolding reachable_def by blast
qed

lemma reachable_step:
  assumes "s \<in> reachable P" "a \<in> set (available_actions P s)" "do_action P s a = Inr s'"
  shows "s' \<in> reachable P"
proof -
  from assms(1) obtain plan where "run_plan P (initial_state P) plan = Some s"
    by (auto simp: reachable_def)
  with assms(2,3) have "run_plan P (initial_state P) (plan @ [a]) = Some s'"
    by (simp add: run_plan_append)
  then show ?thesis
    unfolding reachable_def by blast
qed

subsection \<open>One action of the for loop\<close>

lemma relax_cases:
  assumes "relax P cs cc p (T, Q) = Inr (T', Q')"
  shows "\<exists>ns. do_action P cs p = Inr ns \<and>
     ((\<exists>r. map_of T ns = Some r \<and> f_cost r \<le> action_cost P cs p + cc + heuristic P ns) \<and>
        T' = T \<and> Q' = Q \<or>
      (\<forall>r. map_of T ns = Some r \<longrightarrow> action_cost P cs p + cc + heuristic P ns < f_cost r) \<and>
      T' = AList.update ns \<lparr>predecessor = Some cs, via_action = p,
          f_cost = action_cost P cs p + cc + heuristic P ns, g_cost = action_cost P cs p + cc\<rparr> T \<and>
      Q' = Q @ [(action_cost P cs p + cc + heuristic P ns, ns)])"
proof (cases "do_action P cs p")
  case (Inl e)
  with assms show ?thesis by (simp add: relax_def)
next
  case (Inr ns)
  show ?thesis
  proof (cases "map_of T ns")
    case None
    with Inr assms show ?thesis
      by (simp add: relax_def Let_def pq_put_def)
  next
    case (Some r)
    with Inr assms show ?thesis
      by (cases "f_cost r \<le> action_cost P cs p + cc + heuristic P ns")
         (simp_all add: relax_def Let_def pq_put_def)
  qed
qed


lemma relax_dom:
  assumes "relax P cs cc p (T, Q) = Inr (T', Q')"
  shows "dom (map_of T) \<subseteq> dom (map_of T')"
  using relax_cases [OF assms] by (auto simp: update_conv')



lemma links_okD:
  assumes "links_ok P m" "m s = Some r"
  shows "s \<in> reachable P" "f_cost r = g_cost r + heuristic P s"
    "predecessor r = None \<Longrightarrow> s = initial_state P"
    "predecessor r = Some p \<Longrightarrow> p \<in> dom m \<and> via_action r \<in> set (available_actions P p) \<and>
            do_action P p (via_action r) = Inr s"
proof -
  have *: "s \<in> reachable P \<and> f_cost r = g_cost r + heuristic P s \<and>
       (case predecessor r of
          None \<Rightarrow> s = initial_state P
        | Some p \<Rightarrow> p \<in> dom m \<and> via_action r \<in> set (available_actions P p) \<and>
            do_action P p (via_action r) = Inr s)"
    by (rule assms(1) [unfolded links_ok_def, rule_format, OF assms(2)])
  from * show "s \<in> reachable P" "f_cost r = g_cost r + heuristic P s" by simp_all
  from * show "predecessor r = None \<Longrightarrow> s = initial_state P" by simp
  from * show "predecessor r = Some p \<Longrightarrow> p \<in> dom m \<and> via_action r \<in> set (available_actions P p) \<and>
            do_action P p (via_action r) = Inr s" by simp
qed

lemma links_okI:
  assumes "\<And>s r. m s = Some r \<Longrightarrow> s \<in> reachable P \<and> f_cost r = g_cost r + heuristic P s"
    "\<And>s r. m s = Some r \<Longrightarrow> predecessor r = None \<Longrightarrow> s = initial_state P"
    "\<And>s r p. m s = Some r \<Longrightarrow> predecessor r = Some p \<Longrightarrow>
       p \<in> dom m \<and> via_action r \<in> set (available_actions P p) \<and> do_action P p (via_action r) = Inr s"
  shows "links_ok P m"
  unfolding links_ok_def
proof (intro allI impI)
  fix s r assume h: "m s = Some r"
  show "s \<in> reachable P \<and> f_cost r = g_cost r + heuristic P s \<and>
       (case predecessor r of
          None \<Rightarrow> s = initial_state P
        | Some p \<Rightarrow> p \<in> dom m \<and> via_action r \<in> set (available_actions P p) \<and>
            do_action P p (via_action r) = Inr s)"
    using assms(1) [OF h] assms(2) [OF h] assms(3) [OF h]
    by (cases "predecessor r") simp_all
qed

lemma links_ok_update:
  assumes l: "links_ok P m" and cs: "cs \<in> dom m" and p: "p \<in> set (available_actions P cs)"
    and ns: "do_action P cs p = Inr ns"
    and e: "predecessor e = Some cs" "via_action e = p" "f_cost e = g_cost e + heuristic P ns"
  shows "links_ok P (m(ns \<mapsto> e))"
proof (rule links_okI)
  from cs obtain rc where "m cs = Some rc" by blast
  with l have "cs \<in> reachable P" by (rule links_okD(1))
  then have nsr: "ns \<in> reachable P" using p ns by (rule reachable_step)
  fix s r assume h: "(m(ns \<mapsto> e)) s = Some r"
  show "s \<in> reachable P \<and> f_cost r = g_cost r + heuristic P s"
  proof (cases "s = ns")
    case True
    with h have "r = e" by simp
    with True nsr e show ?thesis by simp
  next
    case False
    with h have "m s = Some r" by simp
    from links_okD(1,2) [OF l this] show ?thesis by simp
  qed
  show "s = initial_state P" if "predecessor r = None"
  proof (cases "s = ns")
    case True
    with h have "r = e" by simp
    with that e show ?thesis by simp
  next
    case False
    with h have "m s = Some r" by simp
    from links_okD(3) [OF l this that] show ?thesis .
  qed
  show "pp \<in> dom (m(ns \<mapsto> e)) \<and> via_action r \<in> set (available_actions P pp) \<and>
       do_action P pp (via_action r) = Inr s" if pp: "predecessor r = Some pp" for pp
  proof (cases "s = ns")
    case True
    with h have "r = e" by simp
    with pp e have "pp = cs" "via_action r = p" by simp_all
    with True cs p ns show ?thesis by simp
  next
    case False
    with h have "m s = Some r" by simp
    from links_okD(4) [OF l this pp] show ?thesis by simp
  qed
qed

lemma relax_basic:
  assumes inv: "basic_inv P (T, Q)" and cs: "cs \<in> dom (map_of T)"
    and p: "p \<in> set (available_actions P cs)"
    and rel: "relax P cs cc p (T, Q) = Inr (T', Q')"
  shows "basic_inv P (T', Q')"
proof -
  from relax_cases [OF rel] obtain ns where ns: "do_action P cs p = Inr ns"
    and alt: "T' = T \<and> Q' = Q \<or>
      T' = AList.update ns \<lparr>predecessor = Some cs, via_action = p,
          f_cost = action_cost P cs p + cc + heuristic P ns, g_cost = action_cost P cs p + cc\<rparr> T \<and>
      Q' = Q @ [(action_cost P cs p + cc + heuristic P ns, ns)]"
    by blast
  show ?thesis
  proof (cases "T' = T \<and> Q' = Q")
    case True
    with inv show ?thesis by simp
  next
    case False
    define e where "e = \<lparr>predecessor = Some cs, via_action = p,
          f_cost = action_cost P cs p + cc + heuristic P ns, g_cost = action_cost P cs p + cc\<rparr>"
    from False alt have T': "T' = AList.update ns e T"
      and Q': "Q' = Q @ [(action_cost P cs p + cc + heuristic P ns, ns)]"
      unfolding e_def by blast+
    have m': "map_of T' = (map_of T)(ns \<mapsto> e)"
      using T' by (simp add: update_conv')
    from inv have d: "distinct (map fst T)" and l: "links_ok P (map_of T)"
      and q: "\<forall>e\<in>set Q. snd e \<in> dom (map_of T)"
      by (simp_all add: basic_inv_def)
    have "links_ok P (map_of T')"
      unfolding m' by (rule links_ok_update [OF l cs p ns]) (simp_all add: e_def)
    moreover have "distinct (map fst T')"
      using d T' by (simp add: distinct_update)
    moreover have "\<forall>e\<in>set Q'. snd e \<in> dom (map_of T')"
      using q Q' m' by auto
    ultimately show ?thesis
      by (simp add: basic_inv_def)
  qed
qed

subsection \<open>The for loop\<close>

lemma expand_invariant:
  assumes "expand P cs cc ps tq = Inr tq'" and "I tq"
    and "\<And>p tq tq'. p \<in> set ps \<Longrightarrow> I tq \<Longrightarrow> relax P cs cc p tq = Inr tq' \<Longrightarrow> I tq'"
  shows "I tq'"
  using assms
proof (induction ps arbitrary: tq)
  case Nil
  then show ?case by simp
next
  case (Cons p ps)
  from Cons.prems(1) obtain tq1 where r: "relax P cs cc p tq = Inr tq1"
    and e: "expand P cs cc ps tq1 = Inr tq'"
    by (auto split: sum.splits)
  have 1: "I tq1"
    by (rule Cons.prems(3) [of p tq tq1]) (simp_all add: Cons.prems(2) r)
  show ?case
  proof (rule Cons.IH [OF e 1])
    fix p' tq tq'
    assume "p' \<in> set ps" "I tq" "relax P cs cc p' tq = Inr tq'"
    then show "I tq'"
      using Cons.prems(3) [of p' tq tq'] by simp
  qed
qed

lemma expand_append:
  "expand P cs cc (as @ bs) tq =
    (case expand P cs cc as tq of Inl e \<Rightarrow> Inl e | Inr tq' \<Rightarrow> expand P cs cc bs tq')"
  by (induction as arbitrary: tq) (auto split: sum.splits)

lemma expand_basic:
  assumes ex: "expand P cs cc ps (T, Q) = Inr (T', Q')" and inv: "basic_inv P (T, Q)"
    and cs: "cs \<in> dom (map_of T)" and ps: "set ps \<subseteq> set (available_actions P cs)"
  shows "basic_inv P (T', Q') \<and> dom (map_of T) \<subseteq> dom (map_of T')"
proof -
  define I where "I = (\<lambda>tq. basic_inv P tq \<and> dom (map_of T) \<subseteq> dom (map_of (fst tq)))"
  have "I (T', Q')"
  proof (rule expand_invariant [OF ex])
    show "I (T, Q)" using inv by (simp add: I_def)
  next
    fix p tq tq'
    assume p: "p \<in> set ps" and i: "I tq" and r: "relax P cs cc p tq = Inr tq'"
    obtain a b a' b' where tq: "tq = (a, b)" "tq' = (a', b')"
      by (cases tq, cases tq') auto
    from i tq have 1: "basic_inv P (a, b)" and 2: "dom (map_of T) \<subseteq> dom (map_of a)"
      by (simp_all add: I_def)
    from 2 cs have 3: "cs \<in> dom (map_of a)" by blast
    from p ps have 4: "p \<in> set (available_actions P cs)" by blast
    from r tq have 5: "relax P cs cc p (a, b) = Inr (a', b')" by simp
    have "basic_inv P (a', b')" by (rule relax_basic [OF 1 3 4 5])
    moreover have "dom (map_of T) \<subseteq> dom (map_of a')"
      using relax_dom [OF 5] 2 by (rule_tac subset_trans)
    ultimately show "I tq'" using tq by (simp add: I_def)
  qed
  then show ?thesis by (simp add: I_def)
qed




subsection \<open>The priority queue\<close>

lemma pq_get_min:
  assumes "q \<noteq> []" "pq_get q = (m, q')"
  shows "m \<in> set q" "\<forall>e\<in>set q. m \<le> e" "q' = remove1 m q"
  using assms by (auto simp: pq_get_def Let_def)

lemma pq_get_rest:
  assumes "q \<noteq> []" "pq_get q = (m, q')"
  shows "set q' \<subseteq> set q" "\<forall>e\<in>set q. e \<noteq> m \<longrightarrow> e \<in> set q'" "Suc (length q') = length q"
proof -
  from pq_get_min [OF assms] have m: "m \<in> set q" and q': "q' = remove1 m q" by auto
  show "set q' \<subseteq> set q" using q' set_remove1_subset by fastforce
  show "\<forall>e\<in>set q. e \<noteq> m \<longrightarrow> e \<in> set q'" using q' by simp
  from m have "length q > 0" by (cases q) auto
  with m q' show "Suc (length q') = length q" by (simp add: length_remove1)
qed



subsection \<open>One pass of the while loop\<close>

lemma iteration_cases:
  assumes "iteration P s = Inr (b, s')"
  shows "\<exists>fv cs q' r. pq_get (queue s) = ((fv, cs), q') \<and> map_of (revealed s) cs = Some r \<and>
    (b \<and> is_goal P cs \<and> s' = s\<lparr>queue := q', visited := visited s + 1, curr_state := Some cs\<rparr> \<or>
     \<not> b \<and> \<not> is_goal P cs \<and>
       (\<exists>T Q. expand P cs (g_cost r) (available_actions P cs) (revealed s, q') = Inr (T, Q) \<and>
          s' = s\<lparr>queue := Q, visited := visited s + 1, curr_state := Some cs, revealed := T\<rparr>))"
proof -
  obtain fv cs q' where g: "pq_get (queue s) = ((fv, cs), q')"
    by (metis surj_pair)
  show ?thesis
  proof (cases "map_of (revealed s) cs")
    case None
    with g assms show ?thesis by (simp add: iteration_def)
  next
    case (Some r)
    show ?thesis
    proof (cases "is_goal P cs")
      case True
      with g Some assms show ?thesis by (auto simp: iteration_def Let_def)
    next
      case False
      with g Some assms show ?thesis
        by (auto simp: iteration_def Let_def split: sum.splits)
    qed
  qed
qed

subsection \<open>Invariants at the head of the while loop\<close>

lemma basic_inv_queue_subset:
  assumes "basic_inv P (T, Q)" "set Q' \<subseteq> set Q"
  shows "basic_inv P (T, Q')"
proof -
  from assms(1) have d: "distinct (map fst T)" and l: "links_ok P (map_of T)"
    and q: "\<forall>e\<in>set Q. snd e \<in> dom (map_of T)"
    by (simp_all add: basic_inv_def)
  from q assms(2) have "\<forall>e\<in>set Q'. snd e \<in> dom (map_of T)" by blast
  with d l show ?thesis by (simp add: basic_inv_def)
qed

lemma basic_inv_init: "basic_inv P (revealed (init_search P), queue (init_search P))"
proof -
  have "links_ok P (map_of (revealed (init_search P)))"
  proof (rule links_okI)
    fix s r assume h: "map_of (revealed (init_search P)) s = Some r"
    then have s: "s = initial_state P" and r: "r = \<lparr>predecessor = None, via_action = '''',
        f_cost = heuristic P (initial_state P), g_cost = 0\<rparr>"
      by (simp_all add: init_search_def Let_def split: if_splits)
    show "s \<in> reachable P \<and> f_cost r = g_cost r + heuristic P s"
      using s r reachable_initial [of P] by simp
    show "s = initial_state P" by (rule s)
    show "pp \<in> dom (map_of (revealed (init_search P))) \<and>
       via_action r \<in> set (available_actions P pp) \<and> do_action P pp (via_action r) = Inr s"
      if "predecessor r = Some pp" for pp
      using that r by simp
  qed
  then show ?thesis
    by (simp add: basic_inv_def) (simp add: init_search_def Let_def pq_put_def)
qed

lemma iteration_basic:
  assumes it: "iteration P s = Inr (b, s')" and ne: "queue s \<noteq> []"
    and inv: "basic_inv P (revealed s, queue s)"
  shows "basic_inv P (revealed s', queue s')"
    and "\<exists>t. curr_state s' = Some t \<and> t \<in> dom (map_of (revealed s'))"
    and "dom (map_of (revealed s)) \<subseteq> dom (map_of (revealed s'))"
proof -
  from iteration_cases [OF it] obtain fv cs q' r where
    g: "pq_get (queue s) = ((fv, cs), q')" and r: "map_of (revealed s) cs = Some r" and
    alt: "b \<and> is_goal P cs \<and> s' = s\<lparr>queue := q', visited := visited s + 1, curr_state := Some cs\<rparr> \<or>
     \<not> b \<and> \<not> is_goal P cs \<and>
       (\<exists>T Q. expand P cs (g_cost r) (available_actions P cs) (revealed s, q') = Inr (T, Q) \<and>
          s' = s\<lparr>queue := Q, visited := visited s + 1, curr_state := Some cs, revealed := T\<rparr>)"
    by (elim exE conjE)
  from pq_get_rest(1) [OF ne g] inv have inv': "basic_inv P (revealed s, q')"
    using basic_inv_queue_subset by blast
  from r have cs: "cs \<in> dom (map_of (revealed s))" by blast
  have "basic_inv P (revealed s', queue s') \<and>
    (\<exists>t. curr_state s' = Some t \<and> t \<in> dom (map_of (revealed s'))) \<and>
    dom (map_of (revealed s)) \<subseteq> dom (map_of (revealed s'))"
  proof (cases b)
    case True
    with alt have "s' = s\<lparr>queue := q', visited := visited s + 1, curr_state := Some cs\<rparr>"
      by simp
    with inv' cs show ?thesis by simp
  next
    case False
    with alt obtain T Q where
      ex: "expand P cs (g_cost r) (available_actions P cs) (revealed s, q') = Inr (T, Q)" and
      s': "s' = s\<lparr>queue := Q, visited := visited s + 1, curr_state := Some cs, revealed := T\<rparr>"
      by auto
    from expand_basic [OF ex inv' cs subset_refl]
    have "basic_inv P (T, Q)" "dom (map_of (revealed s)) \<subseteq> dom (map_of T)" by simp_all
    with s' cs show ?thesis by auto
  qed
  then show "basic_inv P (revealed s', queue s')"
    and "\<exists>t. curr_state s' = Some t \<and> t \<in> dom (map_of (revealed s'))"
    and "dom (map_of (revealed s)) \<subseteq> dom (map_of (revealed s'))"
    by simp_all
qed

lemma config_basic:
  assumes "config P bs"
  shows "basic_inv P (revealed (snd bs), queue (snd bs)) \<and>
    (\<forall>t. curr_state (snd bs) = Some t \<longrightarrow> t \<in> dom (map_of (revealed (snd bs))))"
  using assms
proof (induction rule: config.induct)
  case config_init
  show ?case using basic_inv_init [of P] by (simp add: init_search_def Let_def)
next
  case (config_step s bs)
  obtain b s' where bs: "bs = (b, s')" by (cases bs) auto
  from config_step.IH have inv: "basic_inv P (revealed s, queue s)" by simp
  from config_step.hyps(3) bs have it: "iteration P s = Inr (b, s')" by simp
  from iteration_basic [OF it config_step.hyps(2) inv] bs show ?case by auto
qed

subsection \<open>The loop as a whole\<close>

lemma search_loop_config:
  assumes "search_loop P s0 = Some (Inr s)" "config P (False, s0)"
  shows "config P (False, s) \<and> queue s = [] \<or> config P (True, s)"
proof -
  define R where "R = (\<lambda>(ps :: 'a problem \<times> 'a search) (y :: error + 'a search).
    fst ps = P \<longrightarrow> config P (False, snd ps) \<longrightarrow>
      (\<forall>s. y = Inr s \<longrightarrow> config P (False, s) \<and> queue s = [] \<or> config P (True, s)))"
  have "R (P, s0) (Inr s)"
  proof (rule search_loop.raw_induct [where Pa = R, OF _ assms(1)])
    fix loop P' s1 y
    assume IH: "\<And>s b y. loop s b = Some y \<Longrightarrow> R (s, b) y"
    assume eq: "(if queue s1 = [] then Some (Inr s1)
         else case iteration P' s1 of Inl e \<Rightarrow> Some (Inl e)
              | Inr (brk, s') \<Rightarrow> if brk then Some (Inr s') else loop P' s') = Some y"
    have "config P (False, s) \<and> queue s = [] \<or> config P (True, s)"
      if P': "P' = P" and c: "config P (False, s1)" and y: "y = Inr s" for s
    proof (cases "queue s1 = []")
      case True
      with eq c y show ?thesis by simp
    next
      case False
      with eq y P' obtain brk s' where it: "iteration P s1 = Inr (brk, s')"
        and rest: "(if brk then Some (Inr s') else loop P s') = Some (Inr s)"
        by (auto split: sum.splits)
      from config_step [OF c False it] have c': "config P (brk, s')" .
      show ?thesis
      proof (cases brk)
        case True
        with rest c' show ?thesis by simp
      next
        case False
        with rest have "loop P s' = Some (Inr s)" by simp
        from IH [OF this] c' False show ?thesis by (simp add: R_def)
      qed
    qed
    then show "R (P', s1) y" by (simp add: R_def)
  qed
  with assms(2) show ?thesis by (simp add: R_def)
qed

subsection \<open>Chains of predecessors\<close>

lemma chain_dom: "chain m s plan \<Longrightarrow> s \<in> dom m"
  by (induction rule: chain.induct) auto

lemma chain_run:
  assumes "links_ok P m" "chain m s plan"
  shows "run_plan P (initial_state P) plan = Some s"
  using assms(2)
proof (induction rule: chain.induct)
  case (chain_root s r)
  from links_okD(3) [OF assms(1) chain_root(1) chain_root(2)] show ?case by simp
next
  case (chain_link s r p plan)
  from links_okD(4) [OF assms(1) chain_link(1) chain_link(2)] chain_link.IH
  show ?case by (simp add: run_plan_append)
qed

lemma chain_reconstruct:
  assumes "chain (map_of T) s plan"
  shows "\<exists>e r. reconstruct T s sol = Some (Inr (sol @ rev plan, e)) \<and>
    map_of T e = Some r \<and> predecessor r = None"
  using assms
proof (induction arbitrary: sol rule: chain.induct)
  case (chain_root s r)
  then show ?case by (subst reconstruct.simps) simp
next
  case (chain_link s r p plan)
  from chain_link.IH [of "sol @ [via_action r]"] obtain e r' where
    "reconstruct T p (sol @ [via_action r]) = Some (Inr ((sol @ [via_action r]) @ rev plan, e))"
    "map_of T e = Some r'" "predecessor r' = None"
    by blast
  with chain_link(1,2) show ?case
    by (subst reconstruct.simps) simp
qed

lemma reconstruct_chain:
  assumes "reconstruct T s sol = Some (Inr (sol', e))"
  shows "\<exists>plan. chain (map_of T) s plan \<and> sol' = sol @ rev plan"
proof -
  define R where "R = (\<lambda>(T' :: ('a \<times> 'a entry) list) (s :: 'a) (sol :: string list)
      (y :: error + string list \<times> 'a).
    T' = T \<longrightarrow> (\<forall>sol' e. y = Inr (sol', e) \<longrightarrow>
      (\<exists>plan. chain (map_of T) s plan \<and> sol' = sol @ rev plan)))"
  have "R T s sol (Inr (sol', e))"
  proof (rule reconstruct.raw_induct [where P = R, OF _ assms])
    fix rec T' cs sol0 y
    assume IH: "\<And>cs sol b y. rec cs sol b = Some y \<Longrightarrow> R cs sol b y"
    assume eq: "(case map_of T' cs of None \<Rightarrow> Some (Inl KeyError)
        | Some r \<Rightarrow> (case predecessor r of None \<Rightarrow> Some (Inr (sol0, cs))
            | Some p \<Rightarrow> rec T' p (sol0 @ [via_action r]))) = Some y"
    have "\<exists>plan. chain (map_of T) cs plan \<and> sol1 = sol0 @ rev plan"
      if T': "T' = T" and y: "y = Inr (sol1, e1)" for sol1 e1
    proof (cases "map_of T cs")
      case None
      with eq T' y show ?thesis by simp
    next
      case (Some r)
      show ?thesis
      proof (cases "predecessor r")
        case None
        with eq Some T' y have "sol1 = sol0" by simp
        moreover from Some None have "chain (map_of T) cs []" by (rule chain_root)
        ultimately show ?thesis by auto
      next
        case (Some p)
        with eq \<open>map_of T cs = Some r\<close> T' y
        have "rec T p (sol0 @ [via_action r]) = Some (Inr (sol1, e1))" by simp
        from IH [OF this] obtain plan where c: "chain (map_of T) p plan"
          and s: "sol1 = (sol0 @ [via_action r]) @ rev plan"
          by (auto simp: R_def)
        from \<open>map_of T cs = Some r\<close> Some c have "chain (map_of T) cs (plan @ [via_action r])"
          by (rule chain_link)
        with s show ?thesis by auto
      qed
    qed
    then show "R T' cs sol0 y" unfolding R_def by blast
  qed
  then show ?thesis by (simp add: R_def)
qed

lemma reconstruct_no_error:
  assumes "reconstruct T s sol = Some (Inl err)" "links_ok P (map_of T)"
  shows "s \<notin> dom (map_of T)"
proof -
  define R where "R = (\<lambda>(T' :: ('a \<times> 'a entry) list) (s :: 'a) (sol :: string list)
      (y :: error + string list \<times> 'a).
    T' = T \<longrightarrow> (\<forall>err. y = Inl err \<longrightarrow> s \<notin> dom (map_of T)))"
  have "R T s sol (Inl err)"
  proof (rule reconstruct.raw_induct [where P = R, OF _ assms(1)])
    fix rec T' cs sol0 y
    assume IH: "\<And>cs sol b y. rec cs sol b = Some y \<Longrightarrow> R cs sol b y"
    assume eq: "(case map_of T' cs of None \<Rightarrow> Some (Inl KeyError)
        | Some r \<Rightarrow> (case predecessor r of None \<Rightarrow> Some (Inr (sol0, cs))
            | Some p \<Rightarrow> rec T' p (sol0 @ [via_action r]))) = Some y"
    have "cs \<notin> dom (map_of T)" if T': "T' = T" and y: "y = Inl err1" for err1
    proof (cases "map_of T cs")
      case None
      then show ?thesis by blast
    next
      case (Some r)
      show ?thesis
      proof (cases "predecessor r")
        case None
        with eq Some T' y show ?thesis by simp
      next
        case (Some p)
        with eq \<open>map_of T cs = Some r\<close> T' y
        have "rec T p (sol0 @ [via_action r]) = Some (Inl err1)" by simp
        from IH [OF this] have "p \<notin> dom (map_of T)" by (simp add: R_def)
        moreover from links_okD(4) [OF assms(2) \<open>map_of T cs = Some r\<close> Some]
        have "p \<in> dom (map_of T)" by simp
        ultimately show ?thesis by simp
      qed
    qed
    then show "R T' cs sol0 y" unfolding R_def by blast
  qed
  then show ?thesis by (simp add: R_def)
qed

subsection \<open>Costs that are not negative\<close>

lemma costs_okD:
  assumes "costs_ok P m"
  shows "m (initial_state P) = Some \<lparr>predecessor = None, via_action = '''',
             f_cost = heuristic P (initial_state P), g_cost = 0\<rparr>"
    and "m s = Some r \<Longrightarrow> 0 \<le> g_cost r"
    and "m s = Some r \<Longrightarrow> predecessor r = Some p \<Longrightarrow>
      \<exists>rp. m p = Some rp \<and> g_cost rp + action_cost P p (via_action r) \<le> g_cost r"
    and "m s = Some r \<Longrightarrow> \<exists>plan. chain m s plan"
proof -
  from assms show "m (initial_state P) = Some \<lparr>predecessor = None, via_action = '''',
             f_cost = heuristic P (initial_state P), g_cost = 0\<rparr>"
    by (simp add: costs_ok_def)
  from assms have *: "\<forall>s r. m s = Some r \<longrightarrow>
        0 \<le> g_cost r \<and>
        (\<forall>p. predecessor r = Some p \<longrightarrow>
           (\<exists>rp. m p = Some rp \<and> g_cost rp + action_cost P p (via_action r) \<le> g_cost r)) \<and>
        (\<exists>plan. chain m s plan)"
    by (simp add: costs_ok_def)
  show "m s = Some r \<Longrightarrow> 0 \<le> g_cost r"
    using * [rule_format, of s r] by simp
  show "m s = Some r \<Longrightarrow> predecessor r = Some p \<Longrightarrow>
      \<exists>rp. m p = Some rp \<and> g_cost rp + action_cost P p (via_action r) \<le> g_cost r"
    using * [rule_format, of s r] by simp
  show "m s = Some r \<Longrightarrow> \<exists>plan. chain m s plan"
    using * [rule_format, of s r] by simp
qed

lemma costs_okI:
  assumes "m (initial_state P) = Some \<lparr>predecessor = None, via_action = '''',
             f_cost = heuristic P (initial_state P), g_cost = 0\<rparr>"
    and "\<And>s r. m s = Some r \<Longrightarrow> 0 \<le> g_cost r"
    and "\<And>s r p. m s = Some r \<Longrightarrow> predecessor r = Some p \<Longrightarrow>
      \<exists>rp. m p = Some rp \<and> g_cost rp + action_cost P p (via_action r) \<le> g_cost r"
    and "\<And>s r. m s = Some r \<Longrightarrow> \<exists>plan. chain m s plan"
  shows "costs_ok P m"
  unfolding costs_ok_def
proof (intro conjI allI impI)
  show "m (initial_state P) = Some \<lparr>predecessor = None, via_action = '''',
             f_cost = heuristic P (initial_state P), g_cost = 0\<rparr>" by (rule assms(1))
next
  fix s r assume "m s = Some r" then show "0 \<le> g_cost r" by (rule assms(2))
next
  fix s r p assume "m s = Some r" "predecessor r = Some p"
  then show "\<exists>rp. m p = Some rp \<and> g_cost rp + action_cost P p (via_action r) \<le> g_cost r"
    by (rule assms(3))
next
  fix s r assume "m s = Some r" then show "\<exists>plan. chain m s plan" by (rule assms(4))
qed

lemma nonneg_costsD:
  "nonneg_costs P \<Longrightarrow> s \<in> reachable P \<Longrightarrow> a \<in> set (available_actions P s)
    \<Longrightarrow> 0 \<le> action_cost P s a"
  by (simp add: nonneg_costs_def)

lemma link_cost_nonneg:
  assumes l: "links_ok P m" and n: "nonneg_costs P"
    and s: "m s = Some r" and p: "predecessor r = Some p"
  shows "0 \<le> action_cost P p (via_action r)"
proof -
  from links_okD(4) [OF l s p] obtain rp where rp: "m p = Some rp"
    and a: "via_action r \<in> set (available_actions P p)" by auto
  from links_okD(1) [OF l rp] have "p \<in> reachable P" .
  with n a show ?thesis by (simp add: nonneg_costsD)
qed

lemma g_mono:
  assumes l: "links_ok P m" and c: "costs_ok P m" and n: "nonneg_costs P"
    and s: "m s = Some r" and p: "predecessor r = Some p"
  shows "\<exists>rp. m p = Some rp \<and> g_cost rp \<le> g_cost r"
proof -
  from costs_okD(3) [OF c s p] obtain rp where rp: "m p = Some rp"
    and le: "g_cost rp + action_cost P p (via_action r) \<le> g_cost r" by auto
  from link_cost_nonneg [OF l n s p] le have "g_cost rp \<le> g_cost r" by simp
  with rp show ?thesis by auto
qed

lemma chain_avoid:
  assumes ch: "chain m t plan"
    and l: "links_ok P m" and c: "costs_ok P m" and n: "nonneg_costs P"
    and t: "m t = Some rt" and bound: "\<And>rn. m ns = Some rn \<Longrightarrow> g_cost rt < g_cost rn"
  shows "chain (m(ns \<mapsto> e)) t plan"
  using ch t bound
proof (induction arbitrary: rt rule: chain.induct)
  case (chain_root s r)
  have "s \<noteq> ns"
  proof
    assume "s = ns"
    with chain_root(1,3) have "m ns = Some rt" by simp
    from chain_root(4) [OF this] show False by simp
  qed
  with chain_root(1) have "(m(ns \<mapsto> e)) s = Some r" by simp
  then show ?case using chain_root(2) by (rule chain.chain_root)
next
  case (chain_link s r p plan)
  have ne: "s \<noteq> ns"
  proof
    assume "s = ns"
    with chain_link(1,5) have "m ns = Some rt" by simp
    from chain_link(6) [OF this] show False by simp
  qed
  from chain_link(1,5) have rt: "rt = r" by simp
  from g_mono [OF l c n chain_link(1,2)] obtain rp where rp: "m p = Some rp"
    and le: "g_cost rp \<le> g_cost r" by auto
  have "chain (m(ns \<mapsto> e)) p plan"
  proof (rule chain_link.IH [OF rp])
    fix rn assume "m ns = Some rn"
    from chain_link(6) [OF this] rt le show "g_cost rp < g_cost rn" by simp
  qed
  moreover from ne chain_link(1) have "(m(ns \<mapsto> e)) s = Some r" by simp
  ultimately show ?case using chain_link(2) chain.chain_link by metis
qed

lemma chain_other:
  assumes "chain m t plan" "chain (m(ns \<mapsto> e)) ns pn"
  shows "\<exists>plan'. chain (m(ns \<mapsto> e)) t plan'"
  using assms(1)
proof (induction rule: chain.induct)
  case (chain_root s r)
  show ?case
  proof (cases "s = ns")
    case True
    with assms(2) show ?thesis by blast
  next
    case False
    with chain_root(1) have "(m(ns \<mapsto> e)) s = Some r" by simp
    from chain.chain_root [of "m(ns \<mapsto> e)" s r, OF this chain_root(2)] show ?thesis by blast
  qed
next
  case (chain_link s r p plan)
  show ?case
  proof (cases "s = ns")
    case True
    with assms(2) show ?thesis by blast
  next
    case False
    with chain_link(1) have 1: "(m(ns \<mapsto> e)) s = Some r" by simp
    from chain_link.IH obtain plan' where "chain (m(ns \<mapsto> e)) p plan'" by blast
    from chain.chain_link [of "m(ns \<mapsto> e)" s r p plan', OF 1 chain_link(2) this]
    show ?thesis by blast
  qed
qed

lemma costs_ok_update:
  assumes l: "links_ok P m" and c: "costs_ok P m" and n: "nonneg_costs P"
    and cs: "m cs = Some rc" and cc: "g_cost rc \<le> cc"
    and p: "p \<in> set (available_actions P cs)"
    and upd: "\<And>r. m ns = Some r \<Longrightarrow> action_cost P cs p + cc + heuristic P ns < f_cost r"
    and e: "e = \<lparr>predecessor = Some cs, via_action = p,
          f_cost = action_cost P cs p + cc + heuristic P ns, g_cost = action_cost P cs p + cc\<rparr>"
  shows "costs_ok P (m(ns \<mapsto> e))" and "(m(ns \<mapsto> e)) cs = Some rc"
proof -
  from links_okD(1) [OF l cs] have "cs \<in> reachable P" .
  with n p have c0: "0 \<le> action_cost P cs p" by (simp add: nonneg_costsD)
  from costs_okD(2) [OF c cs] have g0: "0 \<le> g_cost rc" .
  have lower: "g_cost rc < g_cost rn" if rn: "m ns = Some rn" for rn
  proof -
    from links_okD(2) [OF l rn] have "f_cost rn = g_cost rn + heuristic P ns" .
    with upd [OF rn] c0 cc show ?thesis by simp
  qed
  have ne_cs: "ns \<noteq> cs"
  proof
    assume "ns = cs"
    with cs lower [of rc] show False by simp
  qed
  then show cs': "(m(ns \<mapsto> e)) cs = Some rc" using cs by simp
  have ne_init: "ns \<noteq> initial_state P"
  proof
    assume eq: "ns = initial_state P"
    from costs_okD(1) [OF c] eq lower [of "\<lparr>predecessor = None, via_action = '''',
             f_cost = heuristic P (initial_state P), g_cost = 0\<rparr>"] g0
    show False by simp
  qed
  from costs_okD(4) [OF c cs] obtain pc where pc: "chain m cs pc" by auto
  have "chain (m(ns \<mapsto> e)) cs pc"
    by (rule chain_avoid [OF pc l c n cs]) (rule lower)
  with chain_link [of "m(ns \<mapsto> e)" ns e cs pc] e
  have chn: "chain (m(ns \<mapsto> e)) ns (pc @ [p])" by simp
  show "costs_ok P (m(ns \<mapsto> e))"
  proof (rule costs_okI)
    show "(m(ns \<mapsto> e)) (initial_state P) = Some \<lparr>predecessor = None, via_action = '''',
             f_cost = heuristic P (initial_state P), g_cost = 0\<rparr>"
      using ne_init costs_okD(1) [OF c] by simp
  next
    fix s r assume h: "(m(ns \<mapsto> e)) s = Some r"
    show "0 \<le> g_cost r"
    proof (cases "s = ns")
      case True
      with h have "r = e" by simp
      with e c0 g0 cc show ?thesis by simp
    next
      case False
      with h have "m s = Some r" by simp
      then show ?thesis by (rule costs_okD(2) [OF c])
    qed
  next
    fix s r pp assume h: "(m(ns \<mapsto> e)) s = Some r" and pr: "predecessor r = Some pp"
    show "\<exists>rp. (m(ns \<mapsto> e)) pp = Some rp \<and>
      g_cost rp + action_cost P pp (via_action r) \<le> g_cost r"
    proof (cases "s = ns")
      case True
      with h have "r = e" by simp
      with pr e have "pp = cs" "via_action r = p" "g_cost r = action_cost P cs p + cc"
        by simp_all
      with cs' cc show ?thesis by simp
    next
      case False
      with h have ms: "m s = Some r" by simp
      from costs_okD(3) [OF c ms pr] obtain rp where rp: "m pp = Some rp"
        and le: "g_cost rp + action_cost P pp (via_action r) \<le> g_cost r" by auto
      show ?thesis
      proof (cases "pp = ns")
        case True
        with rp have "g_cost rc < g_cost rp" using lower by simp
        moreover from links_okD(2) [OF l] rp True
        have "f_cost rp = g_cost rp + heuristic P ns" by simp
        ultimately have "g_cost e < g_cost rp"
          using upd [of rp] rp True e by simp
        with le True show ?thesis by simp
      next
        case False
        with rp le show ?thesis by simp
      qed
    qed
  next
    fix s r assume h: "(m(ns \<mapsto> e)) s = Some r"
    show "\<exists>plan. chain (m(ns \<mapsto> e)) s plan"
    proof (cases "s = ns")
      case True
      with chn show ?thesis by blast
    next
      case False
      with h have "m s = Some r" by simp
      from costs_okD(4) [OF c this] obtain plan where "chain m s plan" by auto
      from chain_other [OF this chn] show ?thesis .
    qed
  qed
qed

lemma relax_costs:
  assumes n: "nonneg_costs P" and inv: "basic_inv P (T, Q)" and c: "costs_ok P (map_of T)"
    and cs: "map_of T cs = Some rc" and cc: "g_cost rc \<le> cc"
    and p: "p \<in> set (available_actions P cs)"
    and rel: "relax P cs cc p (T, Q) = Inr (T', Q')"
  shows "costs_ok P (map_of T') \<and> map_of T' cs = Some rc"
proof -
  from relax_cases [OF rel] obtain ns where ns: "do_action P cs p = Inr ns"
    and alt: "T' = T \<and> Q' = Q \<or>
      (\<forall>r. map_of T ns = Some r \<longrightarrow> action_cost P cs p + cc + heuristic P ns < f_cost r) \<and>
      T' = AList.update ns \<lparr>predecessor = Some cs, via_action = p,
          f_cost = action_cost P cs p + cc + heuristic P ns, g_cost = action_cost P cs p + cc\<rparr> T \<and>
      Q' = Q @ [(action_cost P cs p + cc + heuristic P ns, ns)]"
    by blast
  show ?thesis
  proof (cases "T' = T \<and> Q' = Q")
    case True
    with c cs show ?thesis by simp
  next
    case False
    define e where "e = \<lparr>predecessor = Some cs, via_action = p,
          f_cost = action_cost P cs p + cc + heuristic P ns, g_cost = action_cost P cs p + cc\<rparr>"
    from False alt have T': "T' = AList.update ns e T"
      and upd: "\<And>r. map_of T ns = Some r \<Longrightarrow> action_cost P cs p + cc + heuristic P ns < f_cost r"
      unfolding e_def by blast+
    have m': "map_of T' = (map_of T)(ns \<mapsto> e)"
      using T' by (simp add: update_conv')
    from inv have l: "links_ok P (map_of T)" by (simp add: basic_inv_def)
    from costs_ok_update [OF l c n cs cc p upd e_def] show ?thesis
      unfolding m' by simp
  qed
qed

lemma expand_costs:
  assumes n: "nonneg_costs P" and ex: "expand P cs cc ps (T, Q) = Inr (T', Q')"
    and inv: "basic_inv P (T, Q)" and c: "costs_ok P (map_of T)"
    and cs: "map_of T cs = Some rc" and cc: "g_cost rc \<le> cc"
    and ps: "set ps \<subseteq> set (available_actions P cs)"
  shows "basic_inv P (T', Q') \<and> costs_ok P (map_of T') \<and> map_of T' cs = Some rc"
proof -
  define I where "I = (\<lambda>tq. basic_inv P tq \<and> costs_ok P (map_of (fst tq)) \<and>
    map_of (fst tq) cs = Some rc)"
  have "I (T', Q')"
  proof (rule expand_invariant [OF ex])
    show "I (T, Q)" using inv c cs by (simp add: I_def)
  next
    fix p tq tq'
    assume p: "p \<in> set ps" and i: "I tq" and r: "relax P cs cc p tq = Inr tq'"
    obtain a b a' b' where tq: "tq = (a, b)" "tq' = (a', b')"
      by (cases tq, cases tq') auto
    from i tq have 1: "basic_inv P (a, b)" and 2: "costs_ok P (map_of a)"
      and 3: "map_of a cs = Some rc"
      by (simp_all add: I_def)
    from 3 have d3: "cs \<in> dom (map_of a)" by blast
    from p ps have 4: "p \<in> set (available_actions P cs)" by blast
    from r tq have 5: "relax P cs cc p (a, b) = Inr (a', b')" by simp
    have "basic_inv P (a', b')" by (rule relax_basic [OF 1 d3 4 5])
    moreover from relax_costs [OF n 1 2 3 cc 4 5]
    have "costs_ok P (map_of a') \<and> map_of a' cs = Some rc" .
    ultimately show "I tq'" using tq by (simp add: I_def)
  qed
  then show ?thesis by (simp add: I_def)
qed

lemma costs_ok_init: "costs_ok P (map_of (revealed (init_search P)))"
proof (rule costs_okI)
  show "map_of (revealed (init_search P)) (initial_state P) = Some \<lparr>predecessor = None,
    via_action = '''', f_cost = heuristic P (initial_state P), g_cost = 0\<rparr>"
    by (simp add: init_search_def Let_def)
next
  fix s r assume "map_of (revealed (init_search P)) s = Some r"
  then show "0 \<le> g_cost r"
    by (auto simp: init_search_def Let_def split: if_splits)
next
  fix s r p assume "map_of (revealed (init_search P)) s = Some r" "predecessor r = Some p"
  then show "\<exists>rp. map_of (revealed (init_search P)) p = Some rp \<and>
    g_cost rp + action_cost P p (via_action r) \<le> g_cost r"
    by (auto simp: init_search_def Let_def split: if_splits)
next
  fix s r assume h: "map_of (revealed (init_search P)) s = Some r"
  then have "predecessor r = None"
    by (auto simp: init_search_def Let_def split: if_splits)
  with h have "chain (map_of (revealed (init_search P))) s []" by (rule chain_root)
  then show "\<exists>plan. chain (map_of (revealed (init_search P))) s plan" by blast
qed

lemma iteration_costs:
  assumes n: "nonneg_costs P" and it: "iteration P s = Inr (b, s')" and ne: "queue s \<noteq> []"
    and inv: "basic_inv P (revealed s, queue s)" and c: "costs_ok P (map_of (revealed s))"
  shows "costs_ok P (map_of (revealed s'))"
proof -
  from iteration_cases [OF it] obtain fv cs q' r where
    g: "pq_get (queue s) = ((fv, cs), q')" and r: "map_of (revealed s) cs = Some r" and
    alt: "b \<and> is_goal P cs \<and> s' = s\<lparr>queue := q', visited := visited s + 1, curr_state := Some cs\<rparr> \<or>
     \<not> b \<and> \<not> is_goal P cs \<and>
       (\<exists>T Q. expand P cs (g_cost r) (available_actions P cs) (revealed s, q') = Inr (T, Q) \<and>
          s' = s\<lparr>queue := Q, visited := visited s + 1, curr_state := Some cs, revealed := T\<rparr>)"
    by (elim exE conjE)
  from pq_get_rest(1) [OF ne g] inv have inv': "basic_inv P (revealed s, q')"
    using basic_inv_queue_subset by blast
  show ?thesis
  proof (cases b)
    case True
    with alt have "s' = s\<lparr>queue := q', visited := visited s + 1, curr_state := Some cs\<rparr>"
      by simp
    with c show ?thesis by simp
  next
    case False
    with alt obtain T Q where
      ex: "expand P cs (g_cost r) (available_actions P cs) (revealed s, q') = Inr (T, Q)" and
      s': "s' = s\<lparr>queue := Q, visited := visited s + 1, curr_state := Some cs, revealed := T\<rparr>"
      by auto
    from expand_costs [OF n ex inv' c r order_refl subset_refl] s' show ?thesis by simp
  qed
qed

lemma config_costs:
  assumes "nonneg_costs P" "config P bs"
  shows "costs_ok P (map_of (revealed (snd bs)))"
  using assms(2)
proof (induction rule: config.induct)
  case config_init
  show ?case using costs_ok_init [of P] by simp
next
  case (config_step s bs)
  obtain b s' where bs: "bs = (b, s')" by (cases bs) auto
  from config_basic [OF config_step.hyps(1)] have inv: "basic_inv P (revealed s, queue s)"
    by simp
  from config_step.IH have c: "costs_ok P (map_of (revealed s))" by simp
  from config_step.hyps(3) bs have it: "iteration P s = Inr (b, s')" by simp
  from iteration_costs [OF assms(1) it config_step.hyps(2) inv c] bs show ?case by simp
qed

subsection \<open>Inside the for loop\<close>

lemma for_point_basic:
  assumes "for_point P cs cc ps (T, Q)"
  shows "basic_inv P (T, Q)" "cs \<in> dom (map_of T)" "set ps \<subseteq> set (available_actions P cs)"
proof -
  from assms obtain s current q' r dn where
    c: "config P (False, s)" and ne: "queue s \<noteq> []" and g: "pq_get (queue s) = (current, q')"
    and cs: "cs = snd current" and r: "map_of (revealed s) cs = Some r"
    and av: "available_actions P cs = dn @ ps"
    and ex: "expand P cs cc dn (revealed s, q') = Inr (T, Q)"
    unfolding for_point_def by blast
  from config_basic [OF c] have inv: "basic_inv P (revealed s, queue s)" by simp
  from pq_get_rest(1) [OF ne g] inv have inv': "basic_inv P (revealed s, q')"
    using basic_inv_queue_subset by blast
  from r have d: "cs \<in> dom (map_of (revealed s))" by blast
  from av have sub: "set dn \<subseteq> set (available_actions P cs)" by simp
  from expand_basic [OF ex inv' d sub]
  show "basic_inv P (T, Q)" "cs \<in> dom (map_of T)" using d by auto
  from av show "set ps \<subseteq> set (available_actions P cs)" by simp
qed

lemma for_point_costs:
  assumes n: "nonneg_costs P" and fp: "for_point P cs cc ps (T, Q)"
  shows "costs_ok P (map_of T)"
proof -
  from fp obtain s current q' r dn where
    c: "config P (False, s)" and ne: "queue s \<noteq> []" and g: "pq_get (queue s) = (current, q')"
    and cs: "cs = snd current" and r: "map_of (revealed s) cs = Some r"
    and cc: "cc = g_cost r"
    and av: "available_actions P cs = dn @ ps"
    and ex: "expand P cs cc dn (revealed s, q') = Inr (T, Q)"
    unfolding for_point_def by blast
  from config_basic [OF c] have inv: "basic_inv P (revealed s, queue s)" by simp
  from config_costs [OF n c] have co: "costs_ok P (map_of (revealed s))" by simp
  from pq_get_rest(1) [OF ne g] inv have inv': "basic_inv P (revealed s, q')"
    using basic_inv_queue_subset by blast
  from av have sub: "set dn \<subseteq> set (available_actions P cs)" by simp
  from cc have le: "g_cost r \<le> cc" by simp
  from expand_costs [OF n ex inv' co r le sub] show ?thesis by simp
qed

lemma length_update_le: "length al \<le> length (AList.update k v al)"
  by (induction al) auto

lemma sentinel_okI:
  assumes l: "links_ok P (map_of T)" and c: "costs_ok P (map_of T)"
  shows "sentinel_ok P T"
  unfolding sentinel_ok_def
proof (intro conjI allI impI ballI)
  from costs_okD(1) [OF c]
  show "\<exists>r. map_of T (initial_state P) = Some r \<and> predecessor r = None" by simp
next
  fix k r assume "map_of T k = Some r \<and> predecessor r = None"
  then show "k = initial_state P" using links_okD(3) [OF l] by blast
next
  fix k sol assume "k \<in> dom (map_of T)"
  then obtain r where r: "map_of T k = Some r" by blast
  from costs_okD(4) [OF c r] obtain plan where "chain (map_of T) k plan" by blast
  from chain_reconstruct [OF this, of sol] obtain e re where
    rec: "reconstruct T k sol = Some (Inr (sol @ rev plan, e))"
    and e: "map_of T e = Some re" "predecessor re = None" by blast
  from links_okD(3) [OF l e] have "e = initial_state P" .
  with rec show "\<exists>sol'. reconstruct T k sol = Some (Inr (sol', initial_state P))" by blast
qed

subsection \<open>The entry of the initial state\<close>

text \<open>
  Claim C6. For a problem whose action costs are not negative, at every point of a run of
  \<^verbatim>\<open>astar\<close> (at the head of the \<^verbatim>\<open>while\<close> loop, after \<^verbatim>\<open>break\<close>, and between two actions of
  the \<^verbatim>\<open>for\<close> loop) the entry of the initial state has the predecessor \<^verbatim>\<open>None\<close>, no other
  entry has, and the reconstruction loop started at any state of the table returns, having
  stopped at the initial state.
\<close>

theorem initial_entry_is_root:
  assumes "nonneg_costs P"
  shows "(config P (b, s) \<longrightarrow> sentinel_ok P (revealed s)) \<and>
    (for_point P cs curr_cost ps (tbl, q) \<longrightarrow> sentinel_ok P tbl)"
proof (intro conjI impI)
  assume c: "config P (b, s)"
  from config_basic [OF c] have "links_ok P (map_of (revealed s))" by (simp add: basic_inv_def)
  moreover from config_costs [OF assms c] have "costs_ok P (map_of (revealed s))" by simp
  ultimately show "sentinel_ok P (revealed s)" by (rule sentinel_okI)
next
  assume fp: "for_point P cs curr_cost ps (tbl, q)"
  from for_point_basic(1) [OF fp] have "links_ok P (map_of tbl)" by (simp add: basic_inv_def)
  moreover from for_point_costs [OF assms fp] have "costs_ok P (map_of tbl)" .
  ultimately show "sentinel_ok P tbl" by (rule sentinel_okI)
qed

subsection \<open>The table grows\<close>

text \<open>
  Claim C5. At every point of the \<^verbatim>\<open>for\<close> loop of a run, processing one action keeps every
  key of the table (and its length does not decrease); an entry that was there is either
  left as it was or replaced, for the successor state only, by an entry whose \<open>f\<close> is the
  new value \<open>g_new + h\<close> and whose \<open>f\<close> and \<open>g\<close> are both strictly smaller; and when the new
  \<open>f\<close> is not strictly smaller than the recorded one, the table and the queue are unchanged.
\<close>

theorem table_never_shrinks:
  assumes fp: "for_point P cs curr_cost (p # ps) (tbl, q)"
    and rel: "relax P cs curr_cost p (tbl, q) = Inr (tbl', q')"
  shows "dom (map_of tbl) \<subseteq> dom (map_of tbl') \<and> length tbl \<le> length tbl' \<and>
    (\<forall>k r. map_of tbl k = Some r \<longrightarrow>
       map_of tbl' k = Some r \<or>
       do_action P cs p = Inr k \<and>
       (\<exists>r'. map_of tbl' k = Some r' \<and>
          f_cost r' = action_cost P cs p + curr_cost + heuristic P k \<and>
          f_cost r' < f_cost r \<and> g_cost r' < g_cost r)) \<and>
    (\<forall>k r. do_action P cs p = Inr k \<and> map_of tbl k = Some r \<and>
        f_cost r \<le> action_cost P cs p + curr_cost + heuristic P k \<longrightarrow>
       tbl' = tbl \<and> q' = q)"
proof -
  from for_point_basic(1) [OF fp] have l: "links_ok P (map_of tbl)" by (simp add: basic_inv_def)
  from relax_cases [OF rel] obtain ns where ns: "do_action P cs p = Inr ns"
    and alt: "(\<exists>r. map_of tbl ns = Some r \<and>
          f_cost r \<le> action_cost P cs p + curr_cost + heuristic P ns) \<and> tbl' = tbl \<and> q' = q \<or>
      (\<forall>r. map_of tbl ns = Some r \<longrightarrow>
          action_cost P cs p + curr_cost + heuristic P ns < f_cost r) \<and>
      tbl' = AList.update ns \<lparr>predecessor = Some cs, via_action = p,
          f_cost = action_cost P cs p + curr_cost + heuristic P ns,
          g_cost = action_cost P cs p + curr_cost\<rparr> tbl \<and>
      q' = q @ [(action_cost P cs p + curr_cost + heuristic P ns, ns)]"
    by blast
  show ?thesis
  proof (cases "tbl' = tbl \<and> q' = q")
    case True
    then show ?thesis by simp
  next
    case False
    define e where "e = \<lparr>predecessor = Some cs, via_action = p,
          f_cost = action_cost P cs p + curr_cost + heuristic P ns,
          g_cost = action_cost P cs p + curr_cost\<rparr>"
    from False alt have T': "tbl' = AList.update ns e tbl"
      and upd: "\<And>r. map_of tbl ns = Some r \<Longrightarrow>
        action_cost P cs p + curr_cost + heuristic P ns < f_cost r"
      unfolding e_def by blast+
    have m': "map_of tbl' = (map_of tbl)(ns \<mapsto> e)"
      using T' by (simp add: update_conv')
    have 1: "dom (map_of tbl) \<subseteq> dom (map_of tbl')" using relax_dom [OF rel] .
    have 2: "length tbl \<le> length tbl'" unfolding T' by (rule length_update_le)
    have 3: "map_of tbl' k = Some r \<or>
       do_action P cs p = Inr k \<and>
       (\<exists>r'. map_of tbl' k = Some r' \<and>
          f_cost r' = action_cost P cs p + curr_cost + heuristic P k \<and>
          f_cost r' < f_cost r \<and> g_cost r' < g_cost r)" if kr: "map_of tbl k = Some r" for k r
    proof (cases "k = ns")
      case False
      with kr m' show ?thesis by simp
    next
      case True
      from links_okD(2) [OF l kr] True have "f_cost r = g_cost r + heuristic P ns" by simp
      with upd [of r] kr True have "f_cost e < f_cost r" "g_cost e < g_cost r"
        by (simp_all add: e_def)
      with True ns m' show ?thesis by (simp add: e_def)
    qed
    have 4: "tbl' = tbl \<and> q' = q" if "do_action P cs p = Inr k \<and> map_of tbl k = Some r \<and>
        f_cost r \<le> action_cost P cs p + curr_cost + heuristic P k" for k r
    proof -
      from that ns have "k = ns" by simp
      with that upd [of r] show ?thesis by simp
    qed
    from 1 2 3 4 show ?thesis by blast
  qed
qed


theorem initial_entry_is_root_witness:
  "nonneg_costs VacuumProblem \<and>
   config VacuumProblem (False,
     \<lparr>queue = [(2, 0, [False, True]), (3, 1, [True, True])],
      revealed =
        [((0, [True, True]),
          \<lparr>predecessor = None, via_action = [], f_cost = 2, g_cost = 0\<rparr>),
         ((0, [False, True]),
          \<lparr>predecessor = Some (0, [True, True]), via_action = ''Suck'', f_cost = 2, g_cost = 1\<rparr>),
         ((1, [True, True]),
          \<lparr>predecessor = Some (0, [True, True]), via_action = ''Right'', f_cost = 3, g_cost = 1\<rparr>)],
      visited = 1, curr_state = Some (0, [True, True])\<rparr>) \<and>
   sentinel_ok VacuumProblem
        [((0, [True, True]),
          \<lparr>predecessor = None, via_action = [], f_cost = 2, g_cost = 0\<rparr>),
         ((0, [False, True]),
          \<lparr>predecessor = Some (0, [True, True]), via_action = ''Suck'', f_cost = 2, g_cost = 1\<rparr>),
         ((1, [True, True]),
          \<lparr>predecessor = Some (0, [True, True]), via_action = ''Right'', f_cost = 3, g_cost = 1\<rparr>)]"
proof -
  have n: "nonneg_costs VacuumProblem"
    by (simp add: nonneg_costs_def VacuumProblem_def vacuum_action_cost_def)
  have q: "queue (init_search VacuumProblem) \<noteq> []"
    by (simp add: init_search_def pq_put_def Let_def)
  have it: "iteration VacuumProblem (init_search VacuumProblem) = Inr (False,
     \<lparr>queue = [(2, 0, [False, True]), (3, 1, [True, True])],
      revealed =
        [((0, [True, True]),
          \<lparr>predecessor = None, via_action = [], f_cost = 2, g_cost = 0\<rparr>),
         ((0, [False, True]),
          \<lparr>predecessor = Some (0, [True, True]), via_action = ''Suck'', f_cost = 2, g_cost = 1\<rparr>),
         ((1, [True, True]),
          \<lparr>predecessor = Some (0, [True, True]), via_action = ''Right'', f_cost = 3, g_cost = 1\<rparr>)],
      visited = 1, curr_state = Some (0, [True, True])\<rparr>)"
    by (simp add: astar_defs vacuum_defs)
  from config_step [OF config_init q it] have c: "config VacuumProblem (False,
     \<lparr>queue = [(2, 0, [False, True]), (3, 1, [True, True])],
      revealed =
        [((0, [True, True]),
          \<lparr>predecessor = None, via_action = [], f_cost = 2, g_cost = 0\<rparr>),
         ((0, [False, True]),
          \<lparr>predecessor = Some (0, [True, True]), via_action = ''Suck'', f_cost = 2, g_cost = 1\<rparr>),
         ((1, [True, True]),
          \<lparr>predecessor = Some (0, [True, True]), via_action = ''Right'', f_cost = 3, g_cost = 1\<rparr>)],
      visited = 1, curr_state = Some (0, [True, True])\<rparr>)" .
  from initial_entry_is_root [OF n, THEN conjunct1, rule_format, OF c] n c
  show ?thesis by simp
qed

theorem table_never_shrinks_witness:
  "for_point VacuumProblem (0, [True, True]) 0 [''Suck'', ''Right'']
     ([((0, [True, True]),
        \<lparr>predecessor = None, via_action = [], f_cost = 2, g_cost = 0\<rparr>)], []) \<and>
   relax VacuumProblem (0, [True, True]) 0 ''Suck''
     ([((0, [True, True]),
        \<lparr>predecessor = None, via_action = [], f_cost = 2, g_cost = 0\<rparr>)], []) =
     Inr ([((0, [True, True]),
            \<lparr>predecessor = None, via_action = [], f_cost = 2, g_cost = 0\<rparr>),
           ((0, [False, True]),
            \<lparr>predecessor = Some (0, [True, True]), via_action = ''Suck'',
               f_cost = 2, g_cost = 1\<rparr>)],
          [(2, 0, [False, True])]) \<and>
   length [((0::int, [True, True]),
        \<lparr>predecessor = None :: vstate option, via_action = [], f_cost = 2, g_cost = 0\<rparr>)]
     \<le> length [((0, [True, True]),
            \<lparr>predecessor = None, via_action = [], f_cost = 2, g_cost = 0\<rparr>),
           ((0, [False, True]),
            \<lparr>predecessor = Some (0, [True, True]), via_action = ''Suck'',
               f_cost = 2, g_cost = 1\<rparr>)]"
proof -
  have fp: "for_point VacuumProblem (0, [True, True]) 0 [''Suck'', ''Right'']
     ([((0, [True, True]),
        \<lparr>predecessor = None, via_action = [], f_cost = 2, g_cost = 0\<rparr>)], [])"
    unfolding for_point_def
  proof (intro exI conjI)
    show "config VacuumProblem (False, init_search VacuumProblem)" by (rule config_init)
    show "queue (init_search VacuumProblem) \<noteq> []"
      by (simp add: init_search_def pq_put_def Let_def)
    show "pq_get (queue (init_search VacuumProblem)) = ((2, (0, [True, True])), [])"
      by (simp add: astar_defs vacuum_defs)
    show "(0, [True, True]) = snd (2 :: real, (0 :: int, [True, True]))" by simp
    show "map_of (revealed (init_search VacuumProblem)) (0, [True, True]) =
      Some \<lparr>predecessor = None, via_action = [], f_cost = 2, g_cost = 0\<rparr>"
      by (simp add: astar_defs vacuum_defs)
    show "(0 :: real) = g_cost \<lparr>predecessor = None :: vstate option, via_action = [],
      f_cost = 2, g_cost = 0\<rparr>" by simp
    show "\<not> is_goal VacuumProblem (0, [True, True])" by (simp add: vacuum_defs)
    show "available_actions VacuumProblem (0, [True, True]) = [''Left''] @ [''Suck'', ''Right'']"
      by (simp add: vacuum_defs)
    show "expand VacuumProblem (0, [True, True]) 0 [''Left'']
        (revealed (init_search VacuumProblem), []) =
      Inr ([((0, [True, True]),
        \<lparr>predecessor = None, via_action = [], f_cost = 2, g_cost = 0\<rparr>)], [])"
      by (simp add: astar_defs vacuum_defs)
  qed
  have rel: "relax VacuumProblem (0, [True, True]) 0 ''Suck''
     ([((0, [True, True]),
        \<lparr>predecessor = None, via_action = [], f_cost = 2, g_cost = 0\<rparr>)], []) =
     Inr ([((0, [True, True]),
            \<lparr>predecessor = None, via_action = [], f_cost = 2, g_cost = 0\<rparr>),
           ((0, [False, True]),
            \<lparr>predecessor = Some (0, [True, True]), via_action = ''Suck'',
               f_cost = 2, g_cost = 1\<rparr>)],
          [(2, 0, [False, True])])"
    by (simp add: astar_defs vacuum_defs)
  from table_never_shrinks [OF fp rel] fp rel show ?thesis by simp
qed

subsection \<open>The plan returned\<close>

lemma astar_after_loop:
  assumes "search_loop P (init_search P) = Some (Inr s)" "curr_state s = Some t"
  shows "astar P =
    (case reconstruct (revealed s) t [] of
       None \<Rightarrow> None
     | Some (Inl e) \<Rightarrow> Some (Inl e)
     | Some (Inr (sol, _)) \<Rightarrow>
         Some (Inr \<lparr>solution = rev sol, visited_states = visited s,
                    checked_states = length (revealed s)\<rparr>))"
  using assms by (simp add: astar_def)

text \<open>
  Claim C10. For every problem, whatever its heuristic and its costs: when the loop has
  ended with a goal \<open>t\<close> as the state popped last, a list returned by \<^verbatim>\<open>astar\<close> is a plan
  that runs from the initial state, each action being available where it is applied, and
  ends in \<open>t\<close>; \<^verbatim>\<open>astar\<close> raises no exception; and when the costs are not negative, \<^verbatim>\<open>astar\<close>
  does return.
\<close>

theorem returned_plan_is_executable:
  assumes loop: "search_loop P (init_search P) = Some (Inr s)"
    and cur: "curr_state s = Some t" and goal: "is_goal P t"
  shows "(\<forall>res. astar P = Some (Inr res) \<longrightarrow>
            run_plan P (initial_state P) (solution res) = Some t) \<and>
    (\<forall>e. astar P \<noteq> Some (Inl e)) \<and>
    (nonneg_costs P \<longrightarrow> (\<exists>res. astar P = Some (Inr res)))"
proof -
  from search_loop_config [OF loop config_init] obtain b where c: "config P (b, s)" by blast
  from config_basic [OF c] cur have l: "links_ok P (map_of (revealed s))"
    and t: "t \<in> dom (map_of (revealed s))"
    by (simp_all add: basic_inv_def)
  note a = astar_after_loop [OF loop cur]
  have 1: "run_plan P (initial_state P) (solution res) = Some t" if "astar P = Some (Inr res)" for res
  proof -
    from that a obtain sol e where rec: "reconstruct (revealed s) t [] = Some (Inr (sol, e))"
      and res: "solution res = rev sol"
      by (auto split: option.splits sum.splits)
    from reconstruct_chain [OF rec] obtain plan where ch: "chain (map_of (revealed s)) t plan"
      and sol: "sol = rev plan" by auto
    from chain_run [OF l ch] res sol show ?thesis by simp
  qed
  have 2: "astar P \<noteq> Some (Inl e)" for e
  proof
    assume "astar P = Some (Inl e)"
    with a have "reconstruct (revealed s) t [] = Some (Inl e)"
      by (auto split: option.splits sum.splits)
    from reconstruct_no_error [OF this l] t show False by simp
  qed
  have 3: "\<exists>res. astar P = Some (Inr res)" if n: "nonneg_costs P"
  proof -
    from config_costs [OF n c] have co: "costs_ok P (map_of (revealed s))" by simp
    from t obtain r where "map_of (revealed s) t = Some r" by blast
    from costs_okD(4) [OF co this] obtain plan where "chain (map_of (revealed s)) t plan" by blast
    from chain_reconstruct [OF this, of "[]"] obtain e where
      "reconstruct (revealed s) t [] = Some (Inr ([] @ rev plan, e))" by blast
    with a show ?thesis by simp
  qed
  from 1 2 3 show ?thesis by blast
qed

theorem returned_plan_is_executable_witness:
  "search_loop VacuumProblem (init_search VacuumProblem) =
     Some (Inr \<lparr>queue = [(3, 1, [True, True])],
          revealed =
            [((0, [True, True]),
              \<lparr>predecessor = None, via_action = [], f_cost = 2, g_cost = 0\<rparr>),
             ((0, [False, True]),
              \<lparr>predecessor = Some (0, [True, True]), via_action = ''Suck'',
                 f_cost = 2, g_cost = 1\<rparr>),
             ((1, [True, True]),
              \<lparr>predecessor = Some (0, [True, True]), via_action = ''Right'',
                 f_cost = 3, g_cost = 1\<rparr>),
             ((1, [False, True]),
              \<lparr>predecessor = Some (0, [False, True]),
                 via_action = ''Right'', f_cost = 3, g_cost = 2\<rparr>),
             ((1, [False, False]),
              \<lparr>predecessor = Some (1, [False, True]), via_action = ''Suck'',
                 f_cost = 3, g_cost = 3\<rparr>)],
          visited = 4, curr_state = Some (1, [False, False])\<rparr>) \<and>
   is_goal VacuumProblem (1, [False, False]) \<and>
   nonneg_costs VacuumProblem \<and>
   astar VacuumProblem =
     Some (Inr \<lparr>solution = [''Suck'', ''Right'', ''Suck''],
                visited_states = 4, checked_states = 5\<rparr>) \<and>
   run_plan VacuumProblem (initial_state VacuumProblem) [''Suck'', ''Right'', ''Suck''] =
     Some (1, [False, False])"
proof -
  have loop: "search_loop VacuumProblem (init_search VacuumProblem) =
     Some (Inr \<lparr>queue = [(3, 1, [True, True])],
          revealed =
            [((0, [True, True]),
              \<lparr>predecessor = None, via_action = [], f_cost = 2, g_cost = 0\<rparr>),
             ((0, [False, True]),
              \<lparr>predecessor = Some (0, [True, True]), via_action = ''Suck'',
                 f_cost = 2, g_cost = 1\<rparr>),
             ((1, [True, True]),
              \<lparr>predecessor = Some (0, [True, True]), via_action = ''Right'',
                 f_cost = 3, g_cost = 1\<rparr>),
             ((1, [False, True]),
              \<lparr>predecessor = Some (0, [False, True]),
                 via_action = ''Right'', f_cost = 3, g_cost = 2\<rparr>),
             ((1, [False, False]),
              \<lparr>predecessor = Some (1, [False, True]), via_action = ''Suck'',
                 f_cost = 3, g_cost = 3\<rparr>)],
          visited = 4, curr_state = Some (1, [False, False])\<rparr>)"
    by (simp add: astar_defs search_loop.simps vacuum_defs)
  have goal: "is_goal VacuumProblem (1, [False, False])"
    by (simp add: vacuum_defs)
  have n: "nonneg_costs VacuumProblem"
    by (simp add: nonneg_costs_def VacuumProblem_def vacuum_action_cost_def)
  have a: "astar VacuumProblem =
     Some (Inr \<lparr>solution = [''Suck'', ''Right'', ''Suck''],
                visited_states = 4, checked_states = 5\<rparr>)"
    by (simp add: astar_defs search_loop.simps reconstruct.simps vacuum_defs)
  from returned_plan_is_executable [OF loop _ goal, THEN conjunct1, rule_format, OF _ a]
  have "run_plan VacuumProblem (initial_state VacuumProblem) [''Suck'', ''Right'', ''Suck''] =
     Some (1, [False, False])" by simp
  with loop goal n a show ?thesis by simp
qed

section \<open>Optimality with a consistent heuristic\<close>

subsection \<open>The invariant of a consistent heuristic\<close>














subsection \<open>What the queue holds for a state that is not expanded\<close>














subsection \<open>The plan returned is a cheapest one\<close>


subsection \<open>The cleaning world meets the hypotheses\<close>













subsection \<open>Without the sign of the heuristic at the goals\<close>






section \<open>Determinism\<close>











end
